theory Spec2Isabelle
  imports Complex_Main
begin

section \<open>Data model\<close>

text \<open>
  Modelled from the spec: the declarations of \<open>Node\<close> and \<open>Link\<close> live in
  \<open>../types\<close>, which is not part of the sources at hand. Section 3 of the specification
  gives their fields: a node has an id, a label, a type (latent or observed) and a canvas
  position; a link has a source id, a target id and a type (directed or covariance).
  The coordinates are JavaScript numbers; every value the layout computes is a small
  integer combination of the layout constants, which doubles represent exactly, so the
  coordinates are modelled as reals. The fields \<open>id\<close>, \<open>type\<close>, \<open>x\<close> and \<open>y\<close> are named
  \<open>node_id\<close>, \<open>node_type\<close> (\<open>link_type\<close> for a link), \<open>node_x\<close> and \<open>node_y\<close> here:
  \<open>id\<close> is a constant of HOL, and a field is a constant that would capture variables.
\<close>

datatype NodeType = Latent | Observed

datatype LinkType = Directed | Covariance

record Node =
  node_id :: string
  label :: string
  node_type :: NodeType
  node_x :: real
  node_y :: real

record Link =
  source :: string
  target :: string
  link_type :: LinkType

text \<open>An entry of the history stack: \<open>{nodes, links}\<close>.\<close>

type_synonym Snapshot = "Node list \<times> Link list"

record SavedModel =
  saved_id :: string
  saved_name :: string
  saved_timestamp :: nat
  saved_nodes :: "Node list"
  saved_links :: "Link list"

datatype Mode = Move | LinkMode

text \<open>
  The component's state: the graph owned by the parent (\<open>nodes\<close>, \<open>links\<close>), the
  \<open>useState\<close> cells and the \<open>isUndoRedoAction\<close> ref. \<open>historyIndex\<close> starts at \<open>-1\<close>,
  so it is an integer.
\<close>

record State =
  nodes :: "Node list"
  links :: "Link list"
  interactionMode :: Mode
  linkType :: LinkType
  linkingSourceId :: "string option"
  selectedNodeId :: "string option"
  selectedLinkIndex :: "nat option"
  history :: "Snapshot list"
  historyIndex :: int
  isUndoRedoAction :: bool
  isLoadModalOpen :: bool

definition initialState :: "Node list \<Rightarrow> Link list \<Rightarrow> State" where
  "initialState ns ls =
     \<lparr> nodes = ns, links = ls, interactionMode = Move, linkType = Directed,
       linkingSourceId = None, selectedNodeId = None, selectedLinkIndex = None,
       history = [], historyIndex = - 1, isUndoRedoAction = False,
       isLoadModalOpen = False \<rparr>"

section \<open>JavaScript array primitives\<close>

text \<open>\<open>xs.slice(0, e)\<close>: a negative end counts from the end of the array.\<close>

definition slice0 :: "'a list \<Rightarrow> int \<Rightarrow> 'a list" where
  "slice0 xs e = (if e < 0 then take (nat (int (length xs) + e)) xs else take (nat e) xs)"

text \<open>\<open>xs[i]\<close>: \<open>undefined\<close> outside the array is \<open>None\<close>.\<close>

definition at_index :: "'a list \<Rightarrow> int \<Rightarrow> 'a option" where
  "at_index xs i = (if 0 \<le> i \<and> i < int (length xs) then Some (xs ! nat i) else None)"

text \<open>\<open>xs.shift()\<close> drops the first element and does nothing on an empty array.\<close>

definition shift :: "'a list \<Rightarrow> 'a list" where
  "shift xs = tl xs"

text \<open>\<open>xs.findIndex(p)\<close>: the first position satisfying \<open>p\<close>, or \<open>-1\<close>.\<close>

fun findIndex :: "('a \<Rightarrow> bool) \<Rightarrow> 'a list \<Rightarrow> int" where
  "findIndex p [] = - 1"
| "findIndex p (v # vs) =
     (if p v then 0 else (let r = findIndex p vs in if r < 0 then - 1 else r + 1))"

section \<open>History management\<close>

definition HISTORY_LIMIT :: nat where
  "HISTORY_LIMIT = 20"

text \<open>
  \<open>saveToHistory\<close> queues two functional updates. The one for \<open>history\<close> reads the
  \<open>historyIndex\<close> captured by the closure of the render that created the callback; the one
  for \<open>historyIndex\<close> reads the cell's previous value. \<open>JSON.parse(JSON.stringify(v))\<close> is a
  deep copy, the identity on values.
\<close>

definition historyUpdater :: "int \<Rightarrow> Node list \<Rightarrow> Link list \<Rightarrow> Snapshot list \<Rightarrow> Snapshot list" where
  "historyUpdater closureIndex newNodes newLinks prev =
     (let newHistory = slice0 prev (closureIndex + 1);
          entry = (newNodes, newLinks);
          newHistory = (if length newHistory \<ge> HISTORY_LIMIT then shift newHistory else newHistory)
      in newHistory @ [entry])"

definition indexUpdater :: "int \<Rightarrow> int" where
  "indexUpdater prev = min (prev + 1) (int HISTORY_LIMIT - 1)"

definition saveToHistoryFrom :: "int \<Rightarrow> Node list \<Rightarrow> Link list \<Rightarrow> State \<Rightarrow> State" where
  "saveToHistoryFrom closureIndex newNodes newLinks st =
     st\<lparr> history := historyUpdater closureIndex newNodes newLinks (history st),
         historyIndex := indexUpdater (historyIndex st) \<rparr>"

text \<open>Called from the render whose state is \<open>st\<close>, the closure holds \<open>historyIndex st\<close>.\<close>

definition saveToHistory :: "Node list \<Rightarrow> Link list \<Rightarrow> State \<Rightarrow> State" where
  "saveToHistory newNodes newLinks st = saveToHistoryFrom (historyIndex st) newNodes newLinks st"

text \<open>
  \<open>undo\<close> and \<open>redo\<close>. Reading \<open>.nodes\<close> of an \<open>undefined\<close> history entry throws a
  TypeError; the thrown handler is \<open>None\<close>.
\<close>

definition undo :: "State \<Rightarrow> State option" where
  "undo st =
     (if historyIndex st > 0 then
        (case at_index (history st) (historyIndex st - 1) of
           None \<Rightarrow> None
         | Some prevState \<Rightarrow>
             Some (st\<lparr> isUndoRedoAction := True,
                       nodes := fst prevState, links := snd prevState,
                       historyIndex := historyIndex st - 1,
                       selectedNodeId := None, selectedLinkIndex := None \<rparr>))
      else Some st)"

definition redo :: "State \<Rightarrow> State option" where
  "redo st =
     (if historyIndex st < int (length (history st)) - 1 then
        (case at_index (history st) (historyIndex st + 1) of
           None \<Rightarrow> None
         | Some nextState \<Rightarrow>
             Some (st\<lparr> isUndoRedoAction := True,
                       nodes := fst nextState, links := snd nextState,
                       historyIndex := historyIndex st + 1,
                       selectedNodeId := None, selectedLinkIndex := None \<rparr>))
      else Some st)"

text \<open>
  The effect that seeds the history on mount, and the effect that records a change of
  the graph. Both read the values of the render they were created in (\<open>c\<close>) and queue
  their updates on the current state (\<open>st\<close>); the ref is read and reset in place.
  The redundancy test of the change effect compares \<open>JSON.stringify\<close> strings. A record
  has no order of properties, so the model compares values: two graphs that are equal as
  values and differ in the order of an object's keys are different strings for the code
  and the same graph here. The objects that this component builds (\<open>addNode\<close>, the
  spread copies of the layout and of a drag, the parsed copies of a snapshot) keep the
  order of the keys they were made from.
\<close>

definition seedEffectFrom :: "State \<Rightarrow> State \<Rightarrow> State" where
  "seedEffectFrom c st =
     (if length (history c) = 0 \<and> length (nodes c) > 0
      then saveToHistoryFrom (historyIndex c) (nodes c) (links c) st else st)"

definition historyEffectFrom :: "State \<Rightarrow> State \<Rightarrow> State" where
  "historyEffectFrom c st =
     (let st' =
        (if \<not> isUndoRedoAction st then
           (if length (nodes c) > 0 \<or> length (links c) > 0 then
              (let currentHistory = at_index (history c) (historyIndex c) in
               if (case currentHistory of
                     None \<Rightarrow> True
                   | Some h \<Rightarrow> fst h \<noteq> nodes c \<or> snd h \<noteq> links c)
               then saveToHistoryFrom (historyIndex c) (nodes c) (links c) st
               else st)
            else st)
         else st)
      in st'\<lparr> isUndoRedoAction := False \<rparr>)"

text \<open>After a render the effect runs with that render's own values.\<close>

definition historyEffect :: "State \<Rightarrow> State" where
  "historyEffect st = historyEffectFrom st st"

text \<open>The first commit runs both effects with the values of the first render.\<close>

definition mountEffects :: "State \<Rightarrow> State" where
  "mountEffects st = historyEffectFrom st (seedEffectFrom st st)"

text \<open>
  An edit replaces the graph (\<open>setNodes\<close>, \<open>setLinks\<close> with fresh arrays); the render that
  follows runs the history effect.
\<close>

definition setGraph :: "Node list \<Rightarrow> Link list \<Rightarrow> State \<Rightarrow> State" where
  "setGraph ns ls st = st\<lparr> nodes := ns, links := ls \<rparr>"

definition mutate :: "Node list \<Rightarrow> Link list \<Rightarrow> State \<Rightarrow> State" where
  "mutate ns ls st = historyEffect (setGraph ns ls st)"

text \<open>A click on the undo or redo button, with the effect of the render it causes.\<close>

definition clickUndo :: "State \<Rightarrow> State option" where
  "clickUndo st =
     (if historyIndex st > 0 then map_option historyEffect (undo st) else Some st)"

definition clickRedo :: "State \<Rightarrow> State option" where
  "clickRedo st =
     (if historyIndex st < int (length (history st)) - 1
      then map_option historyEffect (redo st) else Some st)"

section \<open>Loading and resetting\<close>

text \<open>\<open>window.confirm\<close> is the boolean \<open>confirm\<close>.\<close>

definition loadModel :: "bool \<Rightarrow> SavedModel \<Rightarrow> State \<Rightarrow> State" where
  "loadModel confirm model st =
     (if confirm then
        (let loadedNodes = saved_nodes model; loadedLinks = saved_links model in
         st\<lparr> nodes := loadedNodes, links := loadedLinks,
             history := [(loadedNodes, loadedLinks)], historyIndex := 0,
             isLoadModalOpen := False \<rparr>)
      else st)"

definition createNewModel :: "bool \<Rightarrow> State \<Rightarrow> State" where
  "createNewModel confirm st =
     (if confirm then
        st\<lparr> nodes := [], links := [], history := [([], [])], historyIndex := 0 \<rparr>
      else st)"

section \<open>Interaction\<close>

definition handleNodeClick :: "string \<Rightarrow> State \<Rightarrow> State" where
  "handleNodeClick i st =
     (if interactionMode st = LinkMode then
        (case linkingSourceId st of
           None \<Rightarrow> st\<lparr> linkingSourceId := Some i \<rparr>
         | Some src \<Rightarrow>
             if src = i then st\<lparr> linkingSourceId := None \<rparr>
             else
               (let present = list_ex (\<lambda>l.
                      (source l = src \<and> target l = i) \<or>
                      (linkType st = Covariance \<and> source l = i \<and> target l = src)) (links st);
                    st' = (if \<not> present
                           then st\<lparr> links := links st @
                                  [\<lparr> source = src, target = i, link_type = linkType st \<rparr>] \<rparr>
                           else st)
                in st'\<lparr> linkingSourceId := None \<rparr>))
      else st\<lparr> selectedNodeId := Some i, selectedLinkIndex := None \<rparr>)"

text \<open>
  The \<open>onClick\<close> of the canvas: it clears the selection. A node stops the propagation of
  its click; the toolbar lies inside the canvas and does not, so a click on one of its
  buttons runs the button's handler and then this one. That holds for the buttons of
  undo, redo, delete, layout, new model and load as well; there it changes the selection
  only, which undo, redo and the deletion of a node have cleared themselves.
\<close>

definition canvasClick :: "State \<Rightarrow> State" where
  "canvasClick st = st\<lparr> selectedNodeId := None, selectedLinkIndex := None \<rparr>"

text \<open>
  The handlers of the toolbar buttons that switch the mode and the link type (the
  preview end point of a pending link, which they also reset, is not part of the state).
\<close>

definition setMoveMode :: "State \<Rightarrow> State" where
  "setMoveMode st = st\<lparr> interactionMode := Move, linkingSourceId := None \<rparr>"

definition setLinkMode :: "State \<Rightarrow> State" where
  "setLinkMode st = st\<lparr> interactionMode := LinkMode, linkingSourceId := None \<rparr>"

definition setLinkType :: "LinkType \<Rightarrow> State \<Rightarrow> State" where
  "setLinkType t st = st\<lparr> linkType := t \<rparr>"

text \<open>
  The state update of the node branch of \<open>handleDeleteSelected\<close>: the two \<open>filter\<close> calls.
\<close>

definition removeNode :: "string \<Rightarrow> Node list \<times> Link list \<Rightarrow> Node list \<times> Link list" where
  "removeNode i g =
     (filter (\<lambda>n. node_id n \<noteq> i) (fst g),
      filter (\<lambda>l. source l \<noteq> i \<and> target l \<noteq> i) (snd g))"

text \<open>\<open>links.filter((_, i) => i !== k)\<close>.\<close>

definition removeLinkAt :: "nat \<Rightarrow> Link list \<Rightarrow> Link list" where
  "removeLinkAt k ls = map fst (filter (\<lambda>(l, i). i \<noteq> k) (zip ls [0..<length ls]))"

definition deleteLinkBranch :: "bool \<Rightarrow> State \<Rightarrow> State" where
  "deleteLinkBranch confirm st =
     (case selectedLinkIndex st of
        None \<Rightarrow> st
      | Some k \<Rightarrow>
          if confirm
          then st\<lparr> links := removeLinkAt k (links st), selectedLinkIndex := None \<rparr>
          else st)"

text \<open>
  \<open>if (selectedNodeId)\<close> is a truthiness test: \<open>null\<close> and the empty string both fall
  through to the link branch.
\<close>

definition handleDeleteSelected :: "bool \<Rightarrow> State \<Rightarrow> State" where
  "handleDeleteSelected confirm st =
     (case selectedNodeId st of
        None \<Rightarrow> deleteLinkBranch confirm st
      | Some sel \<Rightarrow>
          if sel \<noteq> [] then
            (if confirm then
               st\<lparr> nodes := fst (removeNode sel (nodes st, links st)),
                   links := snd (removeNode sel (nodes st, links st)),
                   selectedNodeId := None \<rparr>
             else st)
          else deleteLinkBranch confirm st)"

section \<open>Auto layout\<close>

definition canvasPadding :: real where
  "canvasPadding = 100"

definition layerGap :: real where
  "layerGap = 350"

definition nodeGap :: real where
  "nodeGap = 180"

definition observedGap :: real where
  "observedGap = 100"

text \<open>
  \<open>autoLayout\<close> copies every node into \<open>newNodes\<close> and then assigns to the \<open>x\<close> and \<open>y\<close>
  fields of those copies through the arrays \<open>latents\<close>, \<open>observed\<close>, \<open>exogenousLatents\<close>,
  \<open>endogenousLatents\<close> and \<open>connectedObs\<close>, which all alias them. The store is the list
  \<open>newNodes\<close>; an object is addressed by its position in it, and the derived arrays are
  lists of positions.
\<close>

definition setXY :: "nat \<Rightarrow> real \<Rightarrow> real \<Rightarrow> Node list \<Rightarrow> Node list" where
  "setXY i vx vy m = m[i := (m ! i)\<lparr> node_x := vx, node_y := vy \<rparr>]"

definition latentsOf :: "Node list \<Rightarrow> nat list" where
  "latentsOf m = filter (\<lambda>i. node_type (m ! i) = Latent) [0..<length m]"

definition observedOf :: "Node list \<Rightarrow> nat list" where
  "observedOf m = filter (\<lambda>i. node_type (m ! i) = Observed) [0..<length m]"

definition isExogenous :: "Node list \<Rightarrow> nat list \<Rightarrow> Link list \<Rightarrow> nat \<Rightarrow> bool" where
  "isExogenous m latents ls l =
     (\<not> list_ex (\<lambda>link. target link = node_id (m ! l) \<and> link_type link = Directed \<and>
                    list_ex (\<lambda>src. node_id (m ! src) = source link) latents) ls)"

definition exogenousOf :: "Node list \<Rightarrow> nat list \<Rightarrow> Link list \<Rightarrow> nat list" where
  "exogenousOf m latents ls = filter (isExogenous m latents ls) latents"

definition endogenousOf :: "Node list \<Rightarrow> nat list \<Rightarrow> nat list \<Rightarrow> nat list" where
  "endogenousOf m latents exogenousLatents =
     filter (\<lambda>l. find (\<lambda>ex. node_id (m ! ex) = node_id (m ! l)) exogenousLatents = None) latents"

fun placeExogenous :: "nat list \<Rightarrow> real \<Rightarrow> Node list \<Rightarrow> Node list" where
  "placeExogenous [] currentY m = m"
| "placeExogenous (node # rest) currentY m =
     placeExogenous rest (currentY + nodeGap) (setXY node canvasPadding currentY m)"

definition endoStartY :: "nat \<Rightarrow> nat \<Rightarrow> real" where
  "endoStartY nExo nEndo =
     (let totalExoHeight = real nExo * nodeGap;
          totalEndoHeight = real nEndo * nodeGap
      in if nEndo < nExo then canvasPadding + (totalExoHeight - totalEndoHeight) / 2
         else canvasPadding)"

fun placeEndogenous :: "nat list \<Rightarrow> nat \<Rightarrow> real \<Rightarrow> Node list \<Rightarrow> Node list" where
  "placeEndogenous [] i startY m = m"
| "placeEndogenous (node # rest) i startY m =
     placeEndogenous rest (Suc i) startY
       (setXY node (canvasPadding + layerGap) (startY + real i * nodeGap) m)"

text \<open>
  The observed nodes attached to the latent with id \<open>latentId\<close>, as the chain
  \<open>links.filter(...).map(...).filter(...)\<close> computes them: the links with that latent at
  one end and an observed id at the other; each mapped to the first observed node with the
  other end's id (\<open>find\<close>, whose \<open>undefined\<close> is \<open>None\<close>); then the first occurrence of
  every id kept (the test \<open>v &&\<close> drops \<open>undefined\<close>).
\<close>

definition hasObserved :: "Node list \<Rightarrow> nat list \<Rightarrow> string \<Rightarrow> bool" where
  "hasObserved m observed i = list_ex (\<lambda>ob. node_id (m ! ob) = i) observed"

definition attachedLinks :: "Node list \<Rightarrow> nat list \<Rightarrow> Link list \<Rightarrow> string \<Rightarrow> Link list" where
  "attachedLinks m observed ls latentId =
     filter (\<lambda>l. (source l = latentId \<and> hasObserved m observed (target l)) \<or>
                 (target l = latentId \<and> hasObserved m observed (source l))) ls"

definition otherEnd :: "string \<Rightarrow> Link \<Rightarrow> string" where
  "otherEnd latentId l = (if source l = latentId then target l else source l)"

definition mappedObserved :: "Node list \<Rightarrow> nat list \<Rightarrow> Link list \<Rightarrow> string \<Rightarrow> nat option list" where
  "mappedObserved m observed ls latentId =
     map (\<lambda>l. find (\<lambda>ob. node_id (m ! ob) = otherEnd latentId l) observed)
         (attachedLinks m observed ls latentId)"

definition sameId :: "Node list \<Rightarrow> nat \<Rightarrow> nat option \<Rightarrow> bool" where
  "sameId m v t = (case t of None \<Rightarrow> False | Some t' \<Rightarrow> node_id (m ! t') = node_id (m ! v))"

definition keepFirst :: "Node list \<Rightarrow> nat option list \<Rightarrow> nat option \<times> nat \<Rightarrow> nat list" where
  "keepFirst m a vi =
     (case fst vi of
        None \<Rightarrow> []
      | Some v \<Rightarrow> if findIndex (sameId m v) a = int (snd vi) then [v] else [])"

definition firstOccurrences :: "Node list \<Rightarrow> nat option list \<Rightarrow> nat list" where
  "firstOccurrences m a = concat (map (keepFirst m a) (zip a [0..<length a]))"

definition connectedObs :: "Node list \<Rightarrow> nat list \<Rightarrow> Link list \<Rightarrow> string \<Rightarrow> nat list" where
  "connectedObs m observed ls latentId =
     firstOccurrences m (mappedObserved m observed ls latentId)"

fun placeObserved :: "nat list \<Rightarrow> nat \<Rightarrow> real \<Rightarrow> nat \<Rightarrow> Node list \<Rightarrow> Node list" where
  "placeObserved [] i startX latent m = m"
| "placeObserved (obs # rest) i startX latent m =
     placeObserved rest (Suc i) startX latent
       (setXY obs (startX + real i * observedGap) (node_y (m ! latent) + 120) m)"

definition layoutLatent :: "nat list \<Rightarrow> Link list \<Rightarrow> nat \<Rightarrow> Node list \<Rightarrow> Node list" where
  "layoutLatent observed ls latent m =
     (let connected = connectedObs m observed ls (node_id (m ! latent)) in
      if length connected > 0 then
        (let totalWidth = (real (length connected) - 1) * observedGap;
             startX = node_x (m ! latent) - totalWidth / 2
         in placeObserved connected 0 startX latent m)
      else m)"

text \<open>Steps 2 to 6 of \<open>autoLayout\<close>: the node array handed to \<open>setNodes\<close>.\<close>

definition layout :: "Node list \<Rightarrow> Link list \<Rightarrow> Node list" where
  "layout ns ls =
     (let newNodes = ns;
          latents = latentsOf newNodes;
          observed = observedOf newNodes;
          exogenousLatents = exogenousOf newNodes latents ls;
          endogenousLatents = endogenousOf newNodes latents exogenousLatents;
          m1 = placeExogenous exogenousLatents canvasPadding newNodes;
          m2 = placeEndogenous endogenousLatents 0
                 (endoStartY (length exogenousLatents) (length endogenousLatents)) m1
      in fold (layoutLatent observed ls) latents m2)"

text \<open>
  The handler: nothing happens on a graph without nodes; otherwise the new array replaces
  the nodes and is pushed on the history by a direct call of \<open>saveToHistory\<close>.
\<close>

definition autoLayout :: "State \<Rightarrow> State" where
  "autoLayout st =
     (if length (latentsOf (nodes st)) = 0 \<and> length (observedOf (nodes st)) = 0 then st
      else (let newNodes = layout (nodes st) (links st)
            in saveToHistory newNodes (links st) (st\<lparr> nodes := newNodes \<rparr>)))"

section \<open>Sequences of user actions and the notions the properties use\<close>

text \<open>A sequence of edits, each followed by the render that runs the history effect.\<close>

fun recordAll :: "Snapshot list \<Rightarrow> State \<Rightarrow> State" where
  "recordAll [] st = st"
| "recordAll (g # gs) st = recordAll gs (mutate (fst g) (snd g) st)"




text \<open>
  The user actions that reach \<open>handleNodeClick\<close> and the state it reads: a click on a
  node, and the clicks on the toolbar buttons, which the canvas receives as well.
\<close>

datatype LinkEvent = Click string | ToMoveMode | ToLinkMode | PickLinkType LinkType

fun interact :: "LinkEvent \<Rightarrow> State \<Rightarrow> State" where
  "interact (Click i) st = handleNodeClick i st"
| "interact ToMoveMode st = canvasClick (setMoveMode st)"
| "interact ToLinkMode st = canvasClick (setLinkMode st)"
| "interact (PickLinkType t) st = canvasClick (setLinkType t st)"

fun interactAll :: "LinkEvent list \<Rightarrow> State \<Rightarrow> State" where
  "interactAll [] st = st"
| "interactAll (e # es) st = interactAll es (interact e st)"

section \<open>Example graphs\<close>

text \<open>The three-node graph of section 8 of the specification.\<close>

definition nodeA :: Node where
  "nodeA = \<lparr> node_id = ''a'', label = ''A'', node_type = Latent, node_x = 0, node_y = 0 \<rparr>"

definition nodeB :: Node where
  "nodeB = \<lparr> node_id = ''b'', label = ''B'', node_type = Latent, node_x = 0, node_y = 0 \<rparr>"

definition nodeC :: Node where
  "nodeC = \<lparr> node_id = ''c'', label = ''C'', node_type = Observed, node_x = 0, node_y = 0 \<rparr>"

definition scenarioNodes :: "Node list" where
  "scenarioNodes = [nodeA, nodeB, nodeC]"

definition scenarioLinks :: "Link list" where
  "scenarioLinks =
     [\<lparr> source = ''a'', target = ''b'', link_type = Directed \<rparr>,
      \<lparr> source = ''a'', target = ''c'', link_type = Directed \<rparr>]"

definition exampleModel :: SavedModel where
  "exampleModel =
     \<lparr> saved_id = ''1'', saved_name = ''Model 1'', saved_timestamp = 0,
       saved_nodes = scenarioNodes, saved_links = scenarioLinks \<rparr>"

section \<open>Further example states\<close>

definition measurementNodes :: "Node list" where
  "measurementNodes =
     [nodeA,
      \<lparr> node_id = ''c'', label = ''C'', node_type = Observed, node_x = 3, node_y = 4 \<rparr>,
      \<lparr> node_id = ''d'', label = ''D'', node_type = Observed, node_x = 5, node_y = 6 \<rparr>]"

definition measurementLinks :: "Link list" where
  "measurementLinks =
     [\<lparr> source = ''a'', target = ''c'', link_type = Directed \<rparr>,
      \<lparr> source = ''d'', target = ''a'', link_type = Directed \<rparr>]"

text \<open>The graph of section 8 with one more observed node that no link touches.\<close>

definition isolatedNode :: Node where
  "isolatedNode = \<lparr> node_id = ''e'', label = ''E'', node_type = Observed, node_x = 7, node_y = 9 \<rparr>"

text \<open>Twenty different edits, and the state with a full history they lead to.\<close>

definition twentyEdits :: "Snapshot list" where
  "twentyEdits = map (\<lambda>k. ([nodeA\<lparr> node_x := real k \<rparr>], [])) [0..<20]"

definition fullState :: State where
  "fullState = recordAll twentyEdits (initialState [] [])"

definition nineteenEdits :: "Snapshot list" where
  "nineteenEdits = map (\<lambda>k. ([nodeB\<lparr> node_x := real k \<rparr>], [])) [0..<19]"

text \<open>
  Two nodes are added, then both are deleted one after the other: the canvas is empty,
  the history still points at the graph with one node.
\<close>

definition emptiedState :: State where
  "emptiedState =
     historyEffect (handleDeleteSelected True (handleNodeClick ''a''
       (historyEffect (handleDeleteSelected True (handleNodeClick ''b''
          (mutate [nodeA, nodeB] [] (mutate [nodeA] [] (initialState [] []))))))))"

text \<open>A graph that is laid out already, recorded by the history effect.\<close>

definition laidOutNodes :: "Node list" where
  "laidOutNodes = [nodeA\<lparr> node_x := 100, node_y := 100 \<rparr>]"

definition laidOutState :: State where
  "laidOutState = mutate laidOutNodes [] (initialState [] [])"

text \<open>The component mounted on a graph with one node, after the effects of the first commit.\<close>

definition mountedState :: State where
  "mountedState = mountEffects (initialState [nodeA] [])"

section \<open>Notions of the history proofs\<close>

definition graphOf :: "State \<Rightarrow> Snapshot" where
  "graphOf st = (nodes st, links st)"

text \<open>
  The state is at rest and recorded: the ref is reset, the stack is within its limit and
  the entry at the current index is the current graph.
\<close>

definition inSync :: "State \<Rightarrow> bool" where
  "inSync st =
     (\<not> isUndoRedoAction st \<and> length (history st) \<le> HISTORY_LIMIT \<and>
      at_index (history st) (historyIndex st) = Some (graphOf st))"

text \<open>
  Every graph of the sequence makes the history effect record it: it is not empty and it
  differs from the graph before it.
\<close>

fun recordTriggering :: "Snapshot \<Rightarrow> Snapshot list \<Rightarrow> bool" where
  "recordTriggering cur [] = True"
| "recordTriggering cur (g # gs) =
     ((fst g \<noteq> [] \<or> snd g \<noteq> []) \<and> g \<noteq> cur \<and> recordTriggering g gs)"

fun undoTimes :: "nat \<Rightarrow> State \<Rightarrow> State option" where
  "undoTimes 0 st = Some st"
| "undoTimes (Suc n) st = Option.bind (clickUndo st) (undoTimes n)"

fun redoTimes :: "nat \<Rightarrow> State \<Rightarrow> State option" where
  "redoTimes 0 st = Some st"
| "redoTimes (Suc n) st = Option.bind (clickRedo st) (redoTimes n)"

text \<open>The state sits on position \<open>k\<close> of the stack \<open>h\<close>.\<close>

definition atPos :: "State \<Rightarrow> Snapshot list \<Rightarrow> nat \<Rightarrow> bool" where
  "atPos st h k =
     (history st = h \<and> historyIndex st = int k \<and> k < length h \<and> graphOf st = h ! k \<and>
      \<not> isUndoRedoAction st)"

text \<open>The segment \<open>xs\<close> of the stack ends on the current position.\<close>

definition seg :: "State \<Rightarrow> Snapshot list \<Rightarrow> Snapshot list \<Rightarrow> Snapshot list \<Rightarrow> bool" where
  "seg st pre xs post =
     (history st = pre @ xs @ post \<and> xs \<noteq> [] \<and>
      historyIndex st = int (length pre + length xs) - 1 \<and>
      graphOf st = last xs \<and> \<not> isUndoRedoAction st \<and>
      length (history st) \<le> HISTORY_LIMIT)"

text \<open>The index points into the stack; before the first entry it is \<open>-1\<close>.\<close>

definition indexInBounds :: "State \<Rightarrow> bool" where
  "indexInBounds st =
     (0 \<le> historyIndex st \<and> historyIndex st \<le> int (length (history st)) - 1)"

definition historyConsistent :: "State \<Rightarrow> bool" where
  "historyConsistent st =
     ((history st = [] \<and> historyIndex st = - 1) \<or> indexInBounds st)"

section \<open>Notions of the layout proofs\<close>

text \<open>What the layout never assigns to: id, label and type of every node.\<close>

definition skel :: "Node list \<Rightarrow> (string \<times> string \<times> NodeType) list" where
  "skel m = map (\<lambda>n. (node_id n, label n, node_type n)) m"

text \<open>
  Two runs of the layout, started on \<open>a\<close> and on \<open>a'\<close>, have reached the stores \<open>m\<close> and
  \<open>m'\<close>: they agree on the positions \<open>D\<close> assigned so far and have left every other node
  as it was.
\<close>

definition sim :: "Node list \<Rightarrow> Node list \<Rightarrow> nat set \<Rightarrow> Node list \<Rightarrow> Node list \<Rightarrow> bool" where
  "sim a a' D m m' =
     (skel a = skel a' \<and> skel m = skel a \<and> skel m' = skel a' \<and>
      (\<forall>k \<in> D. m ! k = m' ! k) \<and> (\<forall>k. k \<notin> D \<longrightarrow> m ! k = a ! k \<and> m' ! k = a' ! k))"

text \<open>The positions the layout assigns to: the latents and the observed nodes attached to one.\<close>

definition written :: "Node list \<Rightarrow> Link list \<Rightarrow> nat set" where
  "written a ls =
     set (latentsOf a) \<union>
     (\<Union>L \<in> set (latentsOf a). set (connectedObs a (observedOf a) ls (node_id (a ! L))))"

text \<open>Some link joins the node at position \<open>j\<close> and a latent node, in either direction.\<close>

definition attachedToLatent :: "Node list \<Rightarrow> Link list \<Rightarrow> nat \<Rightarrow> bool" where
  "attachedToLatent ns ls j =
     list_ex (\<lambda>l. list_ex (\<lambda>L.
         (source l = node_id (ns ! L) \<and> target l = node_id (ns ! j)) \<or>
         (target l = node_id (ns ! L) \<and> source l = node_id (ns ! j))) (latentsOf ns)) ls"

text \<open>The graphs of claim C7: no endogenous latent, every observed node attached to a latent.\<close>

definition measurementModel :: "Node list \<Rightarrow> Link list \<Rightarrow> bool" where
  "measurementModel ns ls =
     (endogenousOf ns (latentsOf ns) (exogenousOf ns (latentsOf ns) ls) = [] \<and>
      list_all (attachedToLatent ns ls) (observedOf ns))"

section \<open>Properties\<close>

lemmas layout_consts = canvasPadding_def layerGap_def nodeGap_def observedGap_def

lemma upt3: "[0..<3] = [0, 1, 2]"
  by (simp add: upt_rec)

subsection \<open>The history stack is bounded\<close>

lemma length_slice0: "length (slice0 xs e) \<le> length xs"
  by (auto simp: slice0_def)

lemma length_historyUpdater:
  "length prev \<le> HISTORY_LIMIT \<Longrightarrow> length (historyUpdater ci ns ls prev) \<le> HISTORY_LIMIT"
  using length_slice0 [of prev "ci + 1"]
  by (auto simp: historyUpdater_def shift_def Let_def HISTORY_LIMIT_def)

lemma history_historyEffectFrom:
  "history (historyEffectFrom c st) = history st \<or>
   history (historyEffectFrom c st) = historyUpdater (historyIndex c) (nodes c) (links c) (history st)"
  by (simp add: historyEffectFrom_def saveToHistoryFrom_def Let_def)

lemma length_history_mutate:
  "length (history st) \<le> HISTORY_LIMIT \<Longrightarrow> length (history (mutate ns ls st)) \<le> HISTORY_LIMIT"
  using history_historyEffectFrom [of "setGraph ns ls st" "setGraph ns ls st"]
    length_historyUpdater [of "history st"]
  by (auto simp: mutate_def historyEffect_def setGraph_def)

lemma length_history_recordAll:
  "length (history st) \<le> HISTORY_LIMIT \<Longrightarrow> length (history (recordAll gs st)) \<le> HISTORY_LIMIT"
  by (induction gs arbitrary: st) (simp_all add: length_history_mutate)

lemma mutate_records:
  assumes "\<not> isUndoRedoAction st" "ns \<noteq> [] \<or> ls \<noteq> []"
    "at_index (history st) (historyIndex st) \<noteq> Some (ns, ls)"
  shows "mutate ns ls st = (saveToHistory ns ls (setGraph ns ls st))\<lparr> isUndoRedoAction := False \<rparr>"
  using assms
  by (auto simp: mutate_def historyEffect_def historyEffectFrom_def setGraph_def saveToHistory_def
      Let_def split: option.splits)

lemma full_eviction:
  assumes "length h = HISTORY_LIMIT" "i = int HISTORY_LIMIT - 1"
  shows "historyUpdater i ns ls h = tl h @ [(ns, ls)]"
  using assms by (simp add: historyUpdater_def slice0_def shift_def Let_def HISTORY_LIMIT_def)

lemma mutate_cases:
  "mutate ns ls st = (setGraph ns ls st)\<lparr> isUndoRedoAction := False \<rparr> \<or>
   (\<not> isUndoRedoAction st \<and>
    mutate ns ls st = (saveToHistory ns ls (setGraph ns ls st))\<lparr> isUndoRedoAction := False \<rparr>)"
  by (simp add: mutate_def historyEffect_def historyEffectFrom_def setGraph_def saveToHistory_def
      Let_def)

lemma at_top_mutate:
  assumes t: "historyIndex st = int (length (history st)) - 1"
    and l: "length (history st) \<le> HISTORY_LIMIT"
  shows "historyIndex (mutate ns ls st) = int (length (history (mutate ns ls st))) - 1
     \<and> length (history (mutate ns ls st)) \<le> HISTORY_LIMIT
     \<and> \<not> isUndoRedoAction (mutate ns ls st)"
proof -
  have sl: "slice0 (history st) (int (length (history st))) = history st"
    by (simp add: slice0_def)
  from mutate_cases [of ns ls st] show ?thesis
  proof
    assume "mutate ns ls st = (setGraph ns ls st)\<lparr> isUndoRedoAction := False \<rparr>"
    with t l show ?thesis by (simp add: setGraph_def)
  next
    assume "\<not> isUndoRedoAction st \<and>
      mutate ns ls st = (saveToHistory ns ls (setGraph ns ls st))\<lparr> isUndoRedoAction := False \<rparr>"
    then have m: "mutate ns ls st =
        (saveToHistory ns ls (setGraph ns ls st))\<lparr> isUndoRedoAction := False \<rparr>"
      by simp
    show ?thesis
      using l
      by (auto simp: m saveToHistory_def saveToHistoryFrom_def setGraph_def historyUpdater_def
          indexUpdater_def sl shift_def Let_def t HISTORY_LIMIT_def)
  qed
qed

lemma at_top_recordAll:
  "historyIndex st = int (length (history st)) - 1 \<Longrightarrow> length (history st) \<le> HISTORY_LIMIT \<Longrightarrow>
   \<not> isUndoRedoAction st \<Longrightarrow>
   historyIndex (recordAll gs st) = int (length (history (recordAll gs st))) - 1
     \<and> \<not> isUndoRedoAction (recordAll gs st)"
proof (induction gs arbitrary: st)
  case Nil
  then show ?case by simp
next
  case (Cons g gs)
  from at_top_mutate [OF Cons.prems(1,2), of "fst g" "snd g"] Cons.IH [of "mutate (fst g) (snd g) st"]
  show ?case by simp
qed

lemma recorded_on_full_stack:
  assumes "\<not> isUndoRedoAction st" and "ns \<noteq> [] \<or> ls \<noteq> []"
    and "at_index (history st) (historyIndex st) \<noteq> Some (ns, ls)"
    and f: "length (history st) = HISTORY_LIMIT" and i: "historyIndex st = int HISTORY_LIMIT - 1"
  shows "history (mutate ns ls st) = tl (history st) @ [(ns, ls)]
     \<and> historyIndex (mutate ns ls st) = int HISTORY_LIMIT - 1"
proof -
  have m: "mutate ns ls st = (saveToHistory ns ls (setGraph ns ls st))\<lparr> isUndoRedoAction := False \<rparr>"
    using assms(1-3) by (rule mutate_records)
  have "history (mutate ns ls st) = tl (history st) @ [(ns, ls)]"
    by (simp add: m saveToHistory_def saveToHistoryFrom_def setGraph_def full_eviction [OF f i])
  moreover have "historyIndex (mutate ns ls st) = int HISTORY_LIMIT - 1"
    by (simp add: m saveToHistory_def saveToHistoryFrom_def setGraph_def indexUpdater_def i)
  ultimately show ?thesis by simp
qed

text \<open>
  Claim C3. Whatever sequence of edits is applied, from the initial state or from any state
  whose stack holds at most \<open>HISTORY_LIMIT\<close> entries, the stack never holds more than
  \<open>HISTORY_LIMIT = 20\<close> entries. After edits alone the index is on the last entry, and an
  edit that is recorded while the stack is full drops the first (oldest) entry and appends
  the new one; the same holds in any state with a full stack and the index on its last
  entry.
\<close>

theorem history_bounded:
  "(length (history st) \<le> HISTORY_LIMIT \<longrightarrow> length (history (recordAll gs st)) \<le> HISTORY_LIMIT)
   \<and> length (history (recordAll gs (initialState ns0 ls0))) \<le> HISTORY_LIMIT
   \<and> HISTORY_LIMIT = 20
   \<and> (length (history (recordAll gs (initialState ns0 ls0))) = HISTORY_LIMIT \<and>
        (ns \<noteq> [] \<or> ls \<noteq> []) \<and>
        at_index (history (recordAll gs (initialState ns0 ls0)))
          (historyIndex (recordAll gs (initialState ns0 ls0))) \<noteq> Some (ns, ls)
        \<longrightarrow> history (mutate ns ls (recordAll gs (initialState ns0 ls0)))
              = tl (history (recordAll gs (initialState ns0 ls0))) @ [(ns, ls)])
   \<and> (\<not> isUndoRedoAction st \<and> (ns \<noteq> [] \<or> ls \<noteq> []) \<and>
        at_index (history st) (historyIndex st) \<noteq> Some (ns, ls) \<and>
        length (history st) = HISTORY_LIMIT \<and> historyIndex st = int HISTORY_LIMIT - 1
        \<longrightarrow> history (mutate ns ls st) = tl (history st) @ [(ns, ls)]
            \<and> historyIndex (mutate ns ls st) = int HISTORY_LIMIT - 1)"
proof (intro conjI impI)
  assume "length (history st) \<le> HISTORY_LIMIT"
  then show "length (history (recordAll gs st)) \<le> HISTORY_LIMIT"
    by (rule length_history_recordAll)
next
  show "length (history (recordAll gs (initialState ns0 ls0))) \<le> HISTORY_LIMIT"
    by (rule length_history_recordAll) (simp add: initialState_def)
next
  show "HISTORY_LIMIT = 20"
    by (simp add: HISTORY_LIMIT_def)
next
  let ?s = "recordAll gs (initialState ns0 ls0)"
  assume a: "length (history ?s) = HISTORY_LIMIT \<and> (ns \<noteq> [] \<or> ls \<noteq> []) \<and>
        at_index (history ?s) (historyIndex ?s) \<noteq> Some (ns, ls)"
  have t: "historyIndex ?s = int (length (history ?s)) - 1 \<and> \<not> isUndoRedoAction ?s"
    by (rule at_top_recordAll) (simp_all add: initialState_def)
  from a t have "historyIndex ?s = int HISTORY_LIMIT - 1" by simp
  with a t recorded_on_full_stack [of ?s ns ls]
  show "history (mutate ns ls ?s) = tl (history ?s) @ [(ns, ls)]" by blast
next
  assume a: "\<not> isUndoRedoAction st \<and> (ns \<noteq> [] \<or> ls \<noteq> []) \<and>
        at_index (history st) (historyIndex st) \<noteq> Some (ns, ls) \<and>
        length (history st) = HISTORY_LIMIT \<and> historyIndex st = int HISTORY_LIMIT - 1"
  with recorded_on_full_stack [of st ns ls]
  show "history (mutate ns ls st) = tl (history st) @ [(ns, ls)]"
    and "historyIndex (mutate ns ls st) = int HISTORY_LIMIT - 1" by blast+
qed

subsection \<open>Loading and resetting\<close>

text \<open>
  Claim C8. Loading a saved model, or starting a new model, once confirmed, leaves a history
  of exactly one entry, the loaded (or empty) graph, with the index on it; the effect of
  the following render adds nothing, and undo then changes nothing. A declined
  confirmation changes nothing.
\<close>

theorem load_and_new_reset_history:
  "history (loadModel True model st) = [(saved_nodes model, saved_links model)]
   \<and> historyIndex (loadModel True model st) = 0
   \<and> nodes (loadModel True model st) = saved_nodes model
   \<and> links (loadModel True model st) = saved_links model
   \<and> history (historyEffect (loadModel True model st)) = [(saved_nodes model, saved_links model)]
   \<and> historyIndex (historyEffect (loadModel True model st)) = 0
   \<and> undo (historyEffect (loadModel True model st)) = Some (historyEffect (loadModel True model st))
   \<and> clickUndo (historyEffect (loadModel True model st)) = Some (historyEffect (loadModel True model st))
   \<and> history (createNewModel True st) = [([], [])]
   \<and> historyIndex (createNewModel True st) = 0
   \<and> nodes (createNewModel True st) = [] \<and> links (createNewModel True st) = []
   \<and> history (historyEffect (createNewModel True st)) = [([], [])]
   \<and> historyIndex (historyEffect (createNewModel True st)) = 0
   \<and> undo (historyEffect (createNewModel True st)) = Some (historyEffect (createNewModel True st))
   \<and> clickUndo (historyEffect (createNewModel True st)) = Some (historyEffect (createNewModel True st))
   \<and> loadModel False model st = st \<and> createNewModel False st = st"
  by (simp add: loadModel_def createNewModel_def historyEffect_def historyEffectFrom_def
      undo_def clickUndo_def at_index_def Let_def)

subsection \<open>Links are never duplicated\<close>












text \<open>Drawn in the other order, the same two links are refused: the directed link stays alone.\<close>

lemma directed_then_reverse_covariance_refused:
  "links (interactAll [ToLinkMode, PickLinkType Directed, Click ''b'', Click ''a'',
                       PickLinkType Covariance, Click ''a'', Click ''b''] (initialState [] []))
   = [\<lparr>source = ''b'', target = ''a'', link_type = Directed\<rparr>]"
  by (simp add: initialState_def setLinkMode_def setLinkType_def canvasClick_def
      handleNodeClick_def)

subsection \<open>Deleting a node\<close>

text \<open>
  Claim C4. The update that deletes the node with id \<open>i\<close> keeps no node with that id and no
  link whose source or target is \<open>i\<close>, for every graph and every id; the delete handler
  performs exactly this update when a node is selected and the deletion is confirmed. In
  the three-node graph of section 8, deleting \<open>a\<close> leaves the nodes \<open>b\<close>, \<open>c\<close> and no link.
\<close>

theorem delete_node_cascades:
  "(\<forall>l \<in> set (snd (removeNode i g)). source l \<noteq> i \<and> target l \<noteq> i)
   \<and> (\<forall>n \<in> set (fst (removeNode i g)). node_id n \<noteq> i)
   \<and> (selectedNodeId st = Some i \<and> i \<noteq> [] \<longrightarrow>
        (nodes (handleDeleteSelected True st), links (handleDeleteSelected True st))
          = removeNode i (nodes st, links st)
        \<and> (\<forall>l \<in> set (links (handleDeleteSelected True st)). source l \<noteq> i \<and> target l \<noteq> i)
        \<and> (\<forall>n \<in> set (nodes (handleDeleteSelected True st)). node_id n \<noteq> i))
   \<and> nodes (handleDeleteSelected True
        (handleNodeClick ''a'' (initialState scenarioNodes scenarioLinks))) = [nodeB, nodeC]
   \<and> links (handleDeleteSelected True
        (handleNodeClick ''a'' (initialState scenarioNodes scenarioLinks))) = []"
  by (auto simp: removeNode_def handleDeleteSelected_def handleNodeClick_def initialState_def
      scenarioNodes_def scenarioLinks_def nodeA_def nodeB_def nodeC_def)

theorem delete_node_cascades_witness:
  "selectedNodeId (handleNodeClick ''b'' (initialState scenarioNodes scenarioLinks)) = Some ''b''
   \<and> ''b'' \<noteq> []
   \<and> nodes (handleDeleteSelected True
        (handleNodeClick ''b'' (initialState scenarioNodes scenarioLinks))) = [nodeA, nodeC]
   \<and> links (handleDeleteSelected True
        (handleNodeClick ''b'' (initialState scenarioNodes scenarioLinks)))
      = [\<lparr> source = ''a'', target = ''c'', link_type = Directed \<rparr>]"
  using delete_node_cascades [of "''b''" "(scenarioNodes, scenarioLinks)"
      "handleNodeClick ''b'' (initialState scenarioNodes scenarioLinks)"]
  by (simp add: removeNode_def handleNodeClick_def initialState_def
      scenarioNodes_def scenarioLinks_def nodeA_def nodeB_def nodeC_def)

text \<open>
  The handler tests the selection by truthiness: with the empty string selected as node
  id and no link selected it does nothing.
\<close>

lemma empty_id_not_deleted:
  "selectedNodeId st = Some [] \<Longrightarrow> selectedLinkIndex st = None \<Longrightarrow>
   handleDeleteSelected c st = st"
  by (simp add: handleDeleteSelected_def deleteLinkBranch_def)

subsection \<open>The layout of the example graph\<close>



subsection \<open>Undo and redo\<close>

lemma mutate_simp:
  "mutate ns ls st =
     (if \<not> isUndoRedoAction st \<and> (ns \<noteq> [] \<or> ls \<noteq> []) \<and>
         at_index (history st) (historyIndex st) \<noteq> Some (ns, ls)
      then st\<lparr> nodes := ns, links := ls,
               history := historyUpdater (historyIndex st) ns ls (history st),
               historyIndex := indexUpdater (historyIndex st),
               isUndoRedoAction := False \<rparr>
      else st\<lparr> nodes := ns, links := ls, isUndoRedoAction := False \<rparr>)"
  by (auto simp: mutate_def historyEffect_def historyEffectFrom_def setGraph_def
      saveToHistoryFrom_def Let_def split: option.splits)

lemma inSync_atPos:
  "inSync st \<Longrightarrow> atPos st (history st) (nat (historyIndex st))"
  by (auto simp: inSync_def atPos_def at_index_def split: if_splits)

lemma clickUndo_atPos:
  assumes "atPos st h (Suc k)"
  shows "\<exists>u. clickUndo st = Some u \<and> atPos u h k"
  using assms
  by (auto simp: atPos_def clickUndo_def undo_def at_index_def historyEffect_def
      historyEffectFrom_def graphOf_def Let_def)

lemma undoTimes_atPos:
  "atPos st h k \<Longrightarrow> i \<le> k \<Longrightarrow> \<exists>u. undoTimes i st = Some u \<and> atPos u h (k - i)"
proof (induction i arbitrary: st k)
  case 0
  then show ?case by simp
next
  case (Suc i)
  then obtain k' where k: "k = Suc k'" by (cases k) auto
  with Suc.prems obtain u where u: "clickUndo st = Some u" "atPos u h k'"
    using clickUndo_atPos by blast
  from Suc.IH [OF u(2)] Suc.prems k u(1) show ?case by auto
qed

lemma nat_int_Suc: "nat (int k + 1) = Suc k"
  by arith

lemma clickRedo_atPos:
  assumes "atPos st h k" "Suc k < length h"
  shows "\<exists>r. clickRedo st = Some r \<and> atPos r h (Suc k)"
  using assms
  by (auto simp: atPos_def clickRedo_def redo_def at_index_def historyEffect_def
      historyEffectFrom_def graphOf_def Let_def nat_int_Suc)

lemma redoTimes_atPos:
  "atPos st h k \<Longrightarrow> k + j < length h \<Longrightarrow> \<exists>r. redoTimes j st = Some r \<and> atPos r h (k + j)"
proof (induction j arbitrary: st k)
  case 0
  then show ?case by simp
next
  case (Suc j)
  then obtain r where r: "clickRedo st = Some r" "atPos r h (Suc k)"
    using clickRedo_atPos [of st h k] by auto
  from Suc.IH [OF r(2)] Suc.prems r(1) show ?case by auto
qed

lemma nth_seg:
  assumes "n < length xs"
  shows "(pre @ xs @ post) ! (length pre + n) = xs ! n"
  using assms by (simp add: nth_append)

lemma at_index_seg:
  assumes "xs \<noteq> []"
  shows "at_index (pre @ xs @ post) (int (length pre + length xs) - 1) = Some (last xs)"
proof -
  from assms obtain ys y where xs: "xs = ys @ [y]"
    by (metis append_butlast_last_id)
  have n: "nat (int (length pre + length xs) - 1) = length pre + length ys"
    by (simp add: xs)
  have b: "0 \<le> int (length pre + length xs) - 1"
    "int (length pre + length xs) - 1 < int (length (pre @ xs @ post))"
    by (simp_all add: xs)
  have v: "(pre @ xs @ post) ! (length pre + length ys) = last xs"
    using nth_seg [of "length ys" xs pre post] by (simp add: xs)
  show ?thesis
    unfolding at_index_def n v using b by (simp only: simp_thms if_True)
qed

lemma seg_mutate:
  assumes s: "seg st pre xs post" and g: "fst g \<noteq> [] \<or> snd g \<noteq> []" "g \<noteq> last xs"
    and l: "length xs < HISTORY_LIMIT"
  shows "\<exists>pre'. seg (mutate (fst g) (snd g) st) pre' (xs @ [g]) []"
proof -
  let ?h = "history st"
  let ?k = "length pre + length xs"
  let ?m = "mutate (fst g) (snd g) st"
  from s have h: "?h = pre @ xs @ post" and ne: "xs \<noteq> []"
    and idx: "historyIndex st = int ?k - 1" and cur: "graphOf st = last xs"
    and fl: "\<not> isUndoRedoAction st" and len: "length ?h \<le> HISTORY_LIMIT"
    unfolding seg_def by blast+
  from ne have kpos: "0 < ?k" by simp
  have at: "at_index ?h (historyIndex st) = Some (last xs)"
    unfolding h idx using ne by (rule at_index_seg)
  have rec: "at_index ?h (historyIndex st) \<noteq> Some (fst g, snd g)"
    using at g(2) by simp
  have sl: "slice0 ?h (historyIndex st + 1) = pre @ xs"
    using kpos by (simp add: slice0_def h idx)
  have m: "?m =
      st\<lparr> nodes := fst g, links := snd g,
          history := historyUpdater (historyIndex st) (fst g) (snd g) ?h,
          historyIndex := indexUpdater (historyIndex st), isUndoRedoAction := False \<rparr>"
    using fl g(1) rec by (simp add: mutate_simp)
  have G: "graphOf ?m = last (xs @ [g])"
    by (simp add: m graphOf_def)
  have F: "\<not> isUndoRedoAction ?m"
    by (simp add: m)
  have N: "xs @ [g] \<noteq> []"
    by simp
  show ?thesis
  proof (cases "?k \<ge> HISTORY_LIMIT")
    case True
    with len h have k20: "?k = HISTORY_LIMIT" by simp
    with l obtain p ps where pre: "pre = p # ps" by (cases pre) auto
    have hu: "historyUpdater (historyIndex st) (fst g) (snd g) ?h = ps @ (xs @ [g]) @ []"
      using k20 by (simp add: historyUpdater_def sl shift_def Let_def pre)
    have H: "history ?m = ps @ (xs @ [g]) @ []"
      by (simp add: m hu)
    have I: "historyIndex ?m = int (length ps + length (xs @ [g])) - 1"
      using k20 by (simp add: m indexUpdater_def idx pre HISTORY_LIMIT_def)
    have L: "length (history ?m) \<le> HISTORY_LIMIT"
      unfolding H using k20 by (simp add: pre)
    have "seg ?m ps (xs @ [g]) []"
      unfolding seg_def using H I G F L N by blast
    then show ?thesis ..
  next
    case False
    have hu: "historyUpdater (historyIndex st) (fst g) (snd g) ?h = pre @ (xs @ [g]) @ []"
      using False by (simp add: historyUpdater_def sl shift_def Let_def)
    have H: "history ?m = pre @ (xs @ [g]) @ []"
      by (simp add: m hu)
    have I: "historyIndex ?m = int (length pre + length (xs @ [g])) - 1"
      using False by (simp add: m indexUpdater_def idx HISTORY_LIMIT_def)
    have L: "length (history ?m) \<le> HISTORY_LIMIT"
      unfolding H using False by simp
    have "seg ?m pre (xs @ [g]) []"
      unfolding seg_def using H I G F L N by blast
    then show ?thesis ..
  qed
qed

lemma seg_recordAll:
  "seg st pre xs post \<Longrightarrow> recordTriggering (last xs) gs \<Longrightarrow>
   length xs + length gs \<le> HISTORY_LIMIT \<Longrightarrow>
   \<exists>pre' post'. seg (recordAll gs st) pre' (xs @ gs) post'"
proof (induction gs arbitrary: st pre xs post)
  case Nil
  then show ?case by auto
next
  case (Cons g gs)
  from Cons.prems obtain pre' where s': "seg (mutate (fst g) (snd g) st) pre' (xs @ [g]) []"
    using seg_mutate [of st pre xs post g] by auto
  from Cons.IH [OF s'] Cons.prems show ?case by simp
qed

lemma inSync_seg:
  assumes "inSync st"
  shows "\<exists>pre post. seg st pre [graphOf st] post"
proof -
  let ?k = "nat (historyIndex st)"
  from assms have a: "0 \<le> historyIndex st" "?k < length (history st)"
    "history st ! ?k = graphOf st" "\<not> isUndoRedoAction st" "length (history st) \<le> HISTORY_LIMIT"
    by (auto simp: inSync_def at_index_def split: if_splits)
  have "history st = take ?k (history st) @ [graphOf st] @ drop (Suc ?k) (history st)"
    using id_take_nth_drop [OF a(2)] a(3) by simp
  then have "seg st (take ?k (history st)) [graphOf st] (drop (Suc ?k) (history st))"
    using a by (simp add: seg_def min_def)
  then show ?thesis by blast
qed

lemma seg_atPos:
  assumes "seg st pre (ys @ [y]) post"
  shows "atPos st (pre @ (ys @ [y]) @ post) (length pre + length ys)"
  using assms nth_seg [of "length ys" "ys @ [y]" pre post]
  by (simp add: seg_def atPos_def)

text \<open>
  Claim C1, as amended. Take a state at rest whose current graph is the entry at the current
  history index, and apply at most \<open>HISTORY_LIMIT - 1 = 19\<close> edits, each of which the
  history effect records (it is not empty and differs from the graph before it). Then
  \<open>i\<close> clicks on undo, for every \<open>i\<close> up to the number of edits, succeed and restore the
  graph that was current \<open>i\<close> edits earlier, and \<open>j \<le> i\<close> clicks on redo after them
  restore the graph \<open>j\<close> edits later. For one edit: undo restores the graph before the
  edit and redo the graph after it.
\<close>

theorem undo_redo_round_trip:
  assumes "inSync st" and "recordTriggering (graphOf st) gs"
    and "length gs \<le> HISTORY_LIMIT - 1" and "i \<le> length gs" and "j \<le> i"
  shows "\<exists>u r. undoTimes i (recordAll gs st) = Some u
           \<and> graphOf u = (graphOf st # gs) ! (length gs - i)
           \<and> redoTimes j u = Some r
           \<and> graphOf r = (graphOf st # gs) ! (length gs - i + j)"
proof -
  let ?ys = "graphOf st # gs"
  from inSync_seg [OF assms(1)] obtain pre post where s: "seg st pre [graphOf st] post"
    by blast
  from seg_recordAll [OF s, of gs] assms(2,3)
  obtain pre' post' where s': "seg (recordAll gs st) pre' ?ys post'"
    by (auto simp: HISTORY_LIMIT_def)
  let ?h = "pre' @ ?ys @ post'"
  let ?k = "length pre' + length gs"
  obtain zs z where z: "?ys = zs @ [z]"
    by (metis append_butlast_last_id list.distinct(1))
  then have lz: "length zs = length gs"
    by (metis length_Cons length_append_singleton nat.inject)
  have p: "atPos (recordAll gs st) ?h ?k"
    using seg_atPos [of "recordAll gs st" pre' zs z post'] s' z lz by simp
  from undoTimes_atPos [OF p, of i] assms(4)
  obtain u where u: "undoTimes i (recordAll gs st) = Some u" "atPos u ?h (?k - i)"
    by auto
  have "?k - i + j < length ?h"
    using assms(4,5) by simp
  from redoTimes_atPos [OF u(2) this]
  obtain r where r: "redoTimes j u = Some r" "atPos r ?h (?k - i + j)"
    by auto
  have eu: "?k - i = length pre' + (length gs - i)"
    using assms(4) by simp
  have er: "?k - i + j = length pre' + (length gs - i + j)"
    using assms(4) by simp
  have gu: "graphOf u = ?ys ! (length gs - i)"
    using u(2) nth_seg [of "length gs - i" ?ys pre' post'] unfolding eu
    by (simp add: atPos_def)
  have gr: "graphOf r = ?ys ! (length gs - i + j)"
    using r(2) nth_seg [of "length gs - i + j" ?ys pre' post'] assms(4,5) unfolding er
    by (simp add: atPos_def)
  from u(1) gu r(1) gr show ?thesis by blast
qed

subsection \<open>The layout assigns positions from the structure of the graph alone\<close>

lemma skel_length: "skel m = skel m' \<Longrightarrow> length m = length m'"
  by (metis length_map skel_def)

lemma nth_beyond: "length m = length m' \<Longrightarrow> length m \<le> k \<Longrightarrow> m ! k = m' ! k"
proof (induction m arbitrary: m' k)
  case Nil
  then show ?case by simp
next
  case (Cons x xs)
  then obtain y ys where m': "m' = y # ys" by (cases m') auto
  from Cons.prems obtain k' where k: "k = Suc k'" by (cases k) auto
  from Cons.IH [of ys k'] Cons.prems show ?case by (simp add: m' k)
qed

lemma skel_nth:
  assumes "skel m = skel m'"
  shows "node_id (m ! k) = node_id (m' ! k) \<and> label (m ! k) = label (m' ! k) \<and>
         node_type (m ! k) = node_type (m' ! k)"
proof (cases "k < length m")
  case True
  with skel_length [OF assms] have k': "k < length m'" by simp
  from assms have "skel m ! k = skel m' ! k" by simp
  with True k' show ?thesis by (simp add: skel_def)
next
  case False
  with nth_beyond [OF skel_length [OF assms], of k] show ?thesis by simp
qed

lemma node_update_eq:
  fixes p q :: Node
  shows "node_id p = node_id q \<Longrightarrow> label p = label q \<Longrightarrow> node_type p = node_type q \<Longrightarrow>
   p\<lparr> node_x := vx, node_y := vy \<rparr> = q\<lparr> node_x := vx, node_y := vy \<rparr>"
  by (cases p, cases q) simp

lemma skel_setXY: "skel (setXY i vx vy m) = skel m"
proof (cases "i < length m")
  case True
  then show ?thesis
    by (simp add: skel_def setXY_def map_update list_update_same_conv)
next
  case False
  then have "length m \<le> i" by simp
  then show ?thesis unfolding setXY_def by (simp only: list_update_beyond)
qed

lemma length_setXY: "length (setXY i vx vy m) = length m"
  by (simp add: setXY_def)

lemma nth_setXY_other: "k \<noteq> i \<Longrightarrow> setXY i vx vy m ! k = m ! k"
  by (simp add: setXY_def)

lemma nth_setXY_same:
  "i < length m \<Longrightarrow> setXY i vx vy m ! i = (m ! i)\<lparr> node_x := vx, node_y := vy \<rparr>"
  by (simp add: setXY_def)

lemma sim_setXY:
  assumes "sim a a' D m m'" "i < length a"
  shows "sim a a' (insert i D) (setXY i vx vy m) (setXY i vx vy m')"
proof -
  from assms(1) have s: "skel a = skel a'" "skel m = skel a" "skel m' = skel a'"
    and d: "\<forall>k \<in> D. m ! k = m' ! k"
    and f: "\<forall>k. k \<notin> D \<longrightarrow> m ! k = a ! k \<and> m' ! k = a' ! k"
    unfolding sim_def by blast+
  from s have mm: "skel m = skel m'" by simp
  from s assms(2) have i: "i < length m" "i < length m'"
    using skel_length by metis+
  have "(m ! i)\<lparr> node_x := vx, node_y := vy \<rparr> = (m' ! i)\<lparr> node_x := vx, node_y := vy \<rparr>"
    using skel_nth [OF mm, of i] by (intro node_update_eq) simp_all
  then have e: "setXY i vx vy m ! i = setXY i vx vy m' ! i"
    using i by (simp add: nth_setXY_same)
  show ?thesis
    unfolding sim_def
  proof (intro conjI ballI allI impI)
    show "skel a = skel a'" by (rule s(1))
    show "skel (setXY i vx vy m) = skel a" by (simp add: skel_setXY s(2))
    show "skel (setXY i vx vy m') = skel a'" by (simp add: skel_setXY s(3))
  next
    fix k assume "k \<in> insert i D"
    then show "setXY i vx vy m ! k = setXY i vx vy m' ! k"
      using d e by (cases "k = i") (simp_all add: nth_setXY_other)
  next
    fix k assume "k \<notin> insert i D"
    then show "setXY i vx vy m ! k = a ! k" "setXY i vx vy m' ! k = a' ! k"
      using f by (simp_all add: nth_setXY_other)
  qed
qed

lemma sim_placeExogenous:
  "sim a a' D m m' \<Longrightarrow> \<forall>i \<in> set js. i < length a \<Longrightarrow>
   sim a a' (D \<union> set js) (placeExogenous js cy m) (placeExogenous js cy m')"
proof (induction js arbitrary: D m m' cy)
  case Nil
  then show ?case by simp
next
  case (Cons j js)
  from Cons.prems have "sim a a' (insert j D) (setXY j canvasPadding cy m) (setXY j canvasPadding cy m')"
    by (intro sim_setXY) simp_all
  from Cons.IH [OF this] Cons.prems(2) show ?case by simp
qed

lemma sim_placeEndogenous:
  "sim a a' D m m' \<Longrightarrow> \<forall>i \<in> set js. i < length a \<Longrightarrow>
   sim a a' (D \<union> set js) (placeEndogenous js n sy m) (placeEndogenous js n sy m')"
proof (induction js arbitrary: D m m' n)
  case Nil
  then show ?case by simp
next
  case (Cons j js)
  from Cons.prems
  have "sim a a' (insert j D) (setXY j (canvasPadding + layerGap) (sy + real n * nodeGap) m)
          (setXY j (canvasPadding + layerGap) (sy + real n * nodeGap) m')"
    by (intro sim_setXY) simp_all
  from Cons.IH [OF this] Cons.prems(2) show ?case by simp
qed

lemma sim_placeObserved:
  "sim a a' D m m' \<Longrightarrow> L \<in> D \<Longrightarrow> \<forall>i \<in> set js. i < length a \<Longrightarrow>
   sim a a' (D \<union> set js) (placeObserved js n sx L m) (placeObserved js n sx L m')"
proof (induction js arbitrary: D m m' n)
  case Nil
  then show ?case by simp
next
  case (Cons j js)
  from Cons.prems(1,2) have y: "node_y (m ! L) = node_y (m' ! L)"
    by (simp add: sim_def)
  from Cons.prems
  have "sim a a' (insert j D) (setXY j (sx + real n * observedGap) (node_y (m ! L) + 120) m)
          (setXY j (sx + real n * observedGap) (node_y (m ! L) + 120) m')"
    by (intro sim_setXY) simp_all
  from Cons.IH [OF this] Cons.prems(2,3) show ?case by (simp add: y)
qed

lemma connectedObs_cong:
  assumes "skel m = skel m'"
  shows "connectedObs m obs ls lid = connectedObs m' obs ls lid"
proof -
  have i: "\<And>k. node_id (m ! k) = node_id (m' ! k)"
    using skel_nth [OF assms] by simp
  have h: "hasObserved m obs = hasObserved m' obs"
    by (simp add: hasObserved_def fun_eq_iff i)
  have a: "attachedLinks m obs ls lid = attachedLinks m' obs ls lid"
    by (simp add: attachedLinks_def h)
  have p: "mappedObserved m obs ls lid = mappedObserved m' obs ls lid"
    by (simp add: mappedObserved_def a i)
  have s: "sameId m = sameId m'"
    by (simp add: sameId_def fun_eq_iff i split: option.splits)
  have k: "keepFirst m = keepFirst m'"
    by (simp add: keepFirst_def fun_eq_iff s split: option.splits)
  show ?thesis
    by (simp add: connectedObs_def firstOccurrences_def p k)
qed

lemma latentsOf_cong:
  assumes "skel m = skel m'"
  shows "latentsOf m = latentsOf m'"
proof -
  have t: "\<And>k. node_type (m ! k) = node_type (m' ! k)"
    using skel_nth [OF assms] by simp
  show ?thesis
    by (simp add: latentsOf_def t skel_length [OF assms])
qed

lemma observedOf_cong:
  assumes "skel m = skel m'"
  shows "observedOf m = observedOf m'"
proof -
  have t: "\<And>k. node_type (m ! k) = node_type (m' ! k)"
    using skel_nth [OF assms] by simp
  show ?thesis
    by (simp add: observedOf_def t skel_length [OF assms])
qed

lemma exogenousOf_cong:
  assumes "skel m = skel m'"
  shows "exogenousOf m lat ls = exogenousOf m' lat ls"
proof -
  have i: "\<And>k. node_id (m ! k) = node_id (m' ! k)"
    using skel_nth [OF assms] by simp
  have "isExogenous m lat ls = isExogenous m' lat ls"
    by (simp add: isExogenous_def fun_eq_iff i)
  then show ?thesis by (simp add: exogenousOf_def)
qed

lemma endogenousOf_cong:
  assumes "skel m = skel m'"
  shows "endogenousOf m lat ex = endogenousOf m' lat ex"
proof -
  have i: "\<And>k. node_id (m ! k) = node_id (m' ! k)"
    using skel_nth [OF assms] by simp
  show ?thesis by (simp add: endogenousOf_def i)
qed

lemma firstOccurrences_elem:
  assumes "v \<in> set (firstOccurrences m a)"
  shows "Some v \<in> set a"
proof -
  from assms obtain w i where wi: "(w, i) \<in> set (zip a [0..<length a])" "v \<in> set (keepFirst m a (w, i))"
    unfolding firstOccurrences_def by auto
  from wi(2) have "w = Some v"
    by (cases w) (simp_all add: keepFirst_def split: if_splits)
  with set_zip_leftD [OF wi(1)] show ?thesis by simp
qed

lemma connectedObs_elem:
  assumes "v \<in> set (connectedObs m obs ls lid)"
  shows "v \<in> set obs \<and>
     (\<exists>l \<in> set ls. (source l = lid \<and> target l = node_id (m ! v)) \<or>
                    (target l = lid \<and> source l = node_id (m ! v)))"
proof -
  from assms have "Some v \<in> set (mappedObserved m obs ls lid)"
    unfolding connectedObs_def by (rule firstOccurrences_elem)
  then obtain l where l: "l \<in> set (attachedLinks m obs ls lid)"
    "find (\<lambda>ob. node_id (m ! ob) = otherEnd lid l) obs = Some v"
    unfolding mappedObserved_def by auto
  from l(2) have v: "v \<in> set obs" "node_id (m ! v) = otherEnd lid l"
    by (auto simp: find_Some_iff)
  from l(1) have a: "l \<in> set ls"
    "(source l = lid \<and> hasObserved m obs (target l)) \<or>
     (target l = lid \<and> hasObserved m obs (source l))"
    by (simp_all add: attachedLinks_def)
  have "(source l = lid \<and> target l = node_id (m ! v)) \<or>
        (target l = lid \<and> source l = node_id (m ! v))"
  proof (cases "source l = lid")
    case True
    with v(2) show ?thesis by (simp add: otherEnd_def)
  next
    case False
    with v(2) a(2) show ?thesis by (simp add: otherEnd_def)
  qed
  with a(1) v(1) show ?thesis by blast
qed

lemma connectedObs_subset: "set (connectedObs m obs ls lid) \<subseteq> set obs"
  using connectedObs_elem by blast

lemma observedOf_bound: "i \<in> set (observedOf m) \<Longrightarrow> i < length m"
  by (simp add: observedOf_def)

lemma latentsOf_bound: "i \<in> set (latentsOf m) \<Longrightarrow> i < length m"
  by (simp add: latentsOf_def)

lemma sim_layoutLatent:
  assumes s: "sim a a' D m m'" and L: "L \<in> D" and o: "\<forall>i \<in> set obs. i < length a"
  shows "sim a a' (D \<union> set (connectedObs a obs ls (node_id (a ! L))))
           (layoutLatent obs ls L m) (layoutLatent obs ls L m')"
proof -
  from s have k: "skel a = skel a'" "skel m = skel a" "skel m' = skel a'"
    unfolding sim_def by blast+
  from s L have e: "m ! L = m' ! L"
    unfolding sim_def by blast
  have ia: "node_id (m ! L) = node_id (a ! L)"
    using skel_nth [OF k(2)] by simp
  have c: "connectedObs m obs ls (node_id (m ! L)) = connectedObs a obs ls (node_id (a ! L))"
    by (simp add: connectedObs_cong [OF k(2)] ia)
  have ei: "node_id (m' ! L) = node_id (m ! L)" and ex: "node_x (m' ! L) = node_x (m ! L)"
    by (simp_all add: e)
  have c': "connectedObs m' obs ls (node_id (m ! L)) = connectedObs a obs ls (node_id (a ! L))"
    using c connectedObs_cong [of m m'] k by simp
  let ?c = "connectedObs a obs ls (node_id (a ! L))"
  let ?sx = "node_x (m ! L) - (real (length ?c) - 1) * observedGap / 2"
  have b: "\<forall>i \<in> set ?c. i < length a"
    using connectedObs_subset [of a obs ls "node_id (a ! L)"] o by blast
  show ?thesis
  proof (cases "?c = []")
    case True
    have "layoutLatent obs ls L m = m" "layoutLatent obs ls L m' = m'"
      using True by (simp_all add: layoutLatent_def c ei c')
    with s True show ?thesis by simp
  next
    case False
    have "layoutLatent obs ls L m = placeObserved ?c 0 ?sx L m"
      and "layoutLatent obs ls L m' = placeObserved ?c 0 ?sx L m'"
      using False by (simp_all add: layoutLatent_def c ei ex c' Let_def)
    with sim_placeObserved [OF s L b, of 0 ?sx]
    show ?thesis by simp
  qed
qed

lemma sim_fold_layoutLatent:
  "sim a a' D m m' \<Longrightarrow> set lat \<subseteq> D \<Longrightarrow> \<forall>i \<in> set obs. i < length a \<Longrightarrow>
   sim a a' (D \<union> (\<Union>L \<in> set lat. set (connectedObs a obs ls (node_id (a ! L)))))
     (fold (layoutLatent obs ls) lat m) (fold (layoutLatent obs ls) lat m')"
proof (induction lat arbitrary: D m m')
  case Nil
  then show ?case by simp
next
  case (Cons L lat)
  let ?D = "D \<union> set (connectedObs a obs ls (node_id (a ! L)))"
  from Cons.prems have s: "sim a a' ?D (layoutLatent obs ls L m) (layoutLatent obs ls L m')"
    by (intro sim_layoutLatent) simp_all
  from Cons.prems have "set lat \<subseteq> ?D" by auto
  from Cons.IH [OF s this Cons.prems(3)]
  show ?case by (simp add: Un_assoc)
qed

lemma latent_exo_or_endo:
  "set (exogenousOf m lat ls) \<union> set (endogenousOf m lat (exogenousOf m lat ls)) = set lat"
proof -
  have "l \<in> set (endogenousOf m lat (exogenousOf m lat ls))"
    if l: "l \<in> set lat" "l \<notin> set (exogenousOf m lat ls)" for l
  proof -
    from l have n: "\<not> isExogenous m lat ls l" by (simp add: exogenousOf_def)
    have "find (\<lambda>ex. node_id (m ! ex) = node_id (m ! l)) (exogenousOf m lat ls) = None"
    proof (rule ccontr)
      assume "find (\<lambda>ex. node_id (m ! ex) = node_id (m ! l)) (exogenousOf m lat ls) \<noteq> None"
      then obtain ex where "ex \<in> set (exogenousOf m lat ls)" "node_id (m ! ex) = node_id (m ! l)"
        by (auto simp: find_None_iff)
      then have "isExogenous m lat ls l"
        by (simp add: exogenousOf_def isExogenous_def)
      with n show False by simp
    qed
    with l(1) show ?thesis by (simp add: endogenousOf_def)
  qed
  moreover have "set (exogenousOf m lat ls) \<subseteq> set lat"
    by (auto simp: exogenousOf_def)
  moreover have "set (endogenousOf m lat (exogenousOf m lat ls)) \<subseteq> set lat"
    by (auto simp: endogenousOf_def)
  ultimately show ?thesis by blast
qed

lemma sim_refl_start: "skel a = skel a' \<Longrightarrow> sim a a' {} a a'"
  by (simp add: sim_def)

lemma sim_layout:
  assumes k: "skel a = skel a'"
  shows "sim a a' (written a ls) (layout a ls) (layout a' ls)"
proof -
  let ?lat = "latentsOf a"
  let ?obs = "observedOf a"
  let ?exo = "exogenousOf a ?lat ls"
  let ?endo = "endogenousOf a ?lat ?exo"
  let ?sy = "endoStartY (length ?exo) (length ?endo)"
  have pe: "set ?exo \<union> set ?endo = set ?lat"
    by (rule latent_exo_or_endo)
  have bl: "\<forall>i \<in> set ?lat. i < length a"
    by (simp add: latentsOf_bound)
  from pe bl have bx: "\<forall>i \<in> set ?exo. i < length a" and bn: "\<forall>i \<in> set ?endo. i < length a"
    by blast+
  have bo: "\<forall>i \<in> set ?obs. i < length a"
    by (simp add: observedOf_bound)
  have s1: "sim a a' ({} \<union> set ?exo) (placeExogenous ?exo canvasPadding a)
              (placeExogenous ?exo canvasPadding a')"
    by (intro sim_placeExogenous sim_refl_start k bx)
  have s2: "sim a a' ({} \<union> set ?exo \<union> set ?endo)
              (placeEndogenous ?endo 0 ?sy (placeExogenous ?exo canvasPadding a))
              (placeEndogenous ?endo 0 ?sy (placeExogenous ?exo canvasPadding a'))"
    by (intro sim_placeEndogenous s1 bn)
  have d: "{} \<union> set ?exo \<union> set ?endo = set ?lat"
    using pe by simp
  have s3: "sim a a' (set ?lat \<union> (\<Union>L \<in> set ?lat. set (connectedObs a ?obs ls (node_id (a ! L)))))
      (fold (layoutLatent ?obs ls) ?lat (placeEndogenous ?endo 0 ?sy (placeExogenous ?exo canvasPadding a)))
      (fold (layoutLatent ?obs ls) ?lat (placeEndogenous ?endo 0 ?sy (placeExogenous ?exo canvasPadding a')))"
    using sim_fold_layoutLatent [OF s2 [unfolded d] _ bo, of ?lat ls] by simp
  have l: "layout a ls =
      fold (layoutLatent ?obs ls) ?lat (placeEndogenous ?endo 0 ?sy (placeExogenous ?exo canvasPadding a))"
    by (simp add: layout_def Let_def)
  have l': "layout a' ls =
      fold (layoutLatent ?obs ls) ?lat (placeEndogenous ?endo 0 ?sy (placeExogenous ?exo canvasPadding a'))"
    by (simp add: layout_def Let_def latentsOf_cong [OF k, symmetric] observedOf_cong [OF k, symmetric]
        exogenousOf_cong [OF k, symmetric] endogenousOf_cong [OF k, symmetric])
  show ?thesis
    unfolding l l' written_def by (rule s3)
qed

lemma skel_layout: "skel (layout a ls) = skel a"
  using sim_layout [of a a ls] by (simp add: sim_def)

lemma layout_frame: "k \<notin> written a ls \<Longrightarrow> layout a ls ! k = a ! k"
  using sim_layout [of a a ls] by (simp add: sim_def)

lemma layout_idempotent: "layout (layout a ls) ls = layout a ls"
proof -
  let ?a' = "layout a ls"
  have k: "skel a = skel ?a'" by (simp add: skel_layout)
  from sim_layout [OF k, of ls]
  have d: "\<forall>k \<in> written a ls. layout a ls ! k = layout ?a' ls ! k"
    and f: "\<forall>k. k \<notin> written a ls \<longrightarrow> layout a ls ! k = a ! k \<and> layout ?a' ls ! k = ?a' ! k"
    and s: "skel (layout ?a' ls) = skel ?a'"
    unfolding sim_def by blast+
  have "length (layout ?a' ls) = length ?a'"
    using s by (rule skel_length)
  moreover have "layout ?a' ls ! i = ?a' ! i" for i
    using d f by (cases "i \<in> written a ls") auto
  ultimately show ?thesis by (simp add: nth_equalityI)
qed

subsection \<open>Concrete histories\<close>

lemma upt20: "[0..<20] = [0,1,2,3,4,5,6,7,8,9,10,11,12,13,14,15,16,17,18,19]"
  by (simp add: upt_rec)

lemma upt19: "[0..<19] = [0,1,2,3,4,5,6,7,8,9,10,11,12,13,14,15,16,17,18]"
  by (simp add: upt_rec)

lemma fullState_eq:
  "fullState = (initialState [] [])\<lparr> nodes := [nodeA\<lparr> node_x := 19 \<rparr>], links := [],
      history := twentyEdits, historyIndex := 19 \<rparr>"
  unfolding fullState_def twentyEdits_def upt20
  by (simp add: mutate_simp initialState_def at_index_def historyUpdater_def indexUpdater_def
      slice0_def shift_def HISTORY_LIMIT_def nodeA_def Let_def)

text \<open>A full stack evicts its first entry.\<close>

theorem history_bounded_witness:
  "length (history fullState) = HISTORY_LIMIT
   \<and> historyIndex fullState = int HISTORY_LIMIT - 1
   \<and> history (mutate [nodeB] [] fullState) = tl (history fullState) @ [([nodeB], [])]
   \<and> length (history (mutate [nodeB] [] fullState)) = 20"
  using history_bounded [of fullState "[]" "[]" "[]" "[nodeB]" "[]"]
  by (simp add: fullState_eq twentyEdits_def upt20 initialState_def at_index_def HISTORY_LIMIT_def
      nodeA_def nodeB_def)

text \<open>Loading the example model over a full history.\<close>

theorem load_and_new_reset_history_witness:
  "history (historyEffect (loadModel True exampleModel fullState)) = [(scenarioNodes, scenarioLinks)]
   \<and> historyIndex (historyEffect (loadModel True exampleModel fullState)) = 0
   \<and> clickUndo (historyEffect (loadModel True exampleModel fullState))
       = Some (historyEffect (loadModel True exampleModel fullState))
   \<and> history (historyEffect (createNewModel True fullState)) = [([], [])]"
  using load_and_new_reset_history [of exampleModel fullState]
  by (simp add: exampleModel_def)

lemma inSync_fullState: "inSync fullState"
  by (simp add: inSync_def fullState_eq twentyEdits_def upt20 initialState_def at_index_def
      HISTORY_LIMIT_def graphOf_def)

lemma recordTriggering_nineteen: "recordTriggering (graphOf fullState) nineteenEdits"
  by (simp add: fullState_eq nineteenEdits_def upt19 graphOf_def initialState_def nodeA_def nodeB_def)

text \<open>
  Nineteen edits on a full history, nineteen undos back to the graph before them, nineteen
  redos forward to the last edit.
\<close>

theorem undo_redo_round_trip_witness:
  "inSync fullState \<and> recordTriggering (graphOf fullState) nineteenEdits
   \<and> length nineteenEdits = HISTORY_LIMIT - 1
   \<and> (\<exists>u r. undoTimes 19 (recordAll nineteenEdits fullState) = Some u
          \<and> graphOf u = ([nodeA\<lparr> node_x := 19 \<rparr>], [])
          \<and> redoTimes 19 u = Some r
          \<and> graphOf r = ([nodeB\<lparr> node_x := 18 \<rparr>], []))"
proof -
  have l: "length nineteenEdits = 19"
    by (simp add: nineteenEdits_def)
  have g: "graphOf fullState = ([nodeA\<lparr> node_x := 19 \<rparr>], [])"
    by (simp add: fullState_eq graphOf_def)
  have n: "nineteenEdits ! 18 = ([nodeB\<lparr> node_x := 18 \<rparr>], [])"
    by (simp add: nineteenEdits_def upt19)
  from undo_redo_round_trip [OF inSync_fullState recordTriggering_nineteen, of 19 19]
  show ?thesis
    using inSync_fullState recordTriggering_nineteen
    by (simp add: l g n HISTORY_LIMIT_def)
qed

lemma emptiedState_eq:
  "emptiedState = (initialState [] [])\<lparr>
      history := [([nodeA], []), ([nodeA, nodeB], []), ([nodeA], [])], historyIndex := 2 \<rparr>"
  by (simp add: emptiedState_def mutate_simp historyEffect_def historyEffectFrom_def
      handleDeleteSelected_def handleNodeClick_def removeNode_def initialState_def at_index_def
      historyUpdater_def indexUpdater_def saveToHistoryFrom_def slice0_def shift_def
      HISTORY_LIMIT_def nodeA_def nodeB_def Let_def)

text \<open>
  Claim C1 as stated fails where the canvas has been emptied: the history effect does not
  record a graph without nodes and links, so the index stays on the graph before the
  deletion. The next edit is recorded, and undo after it restores that older graph, not
  the empty canvas the edit started from.
\<close>

theorem undo_skips_empty_canvas:
  "history emptiedState = [([nodeA], []), ([nodeA, nodeB], []), ([nodeA], [])]
   \<and> historyIndex emptiedState = 2
   \<and> graphOf emptiedState = ([], [])
   \<and> history (mutate [nodeC] [] emptiedState) = history emptiedState @ [([nodeC], [])]
   \<and> map_option graphOf (clickUndo (mutate [nodeC] [] emptiedState)) = Some ([nodeA], [])
   \<and> map_option graphOf (clickUndo (mutate [nodeC] [] emptiedState)) \<noteq> Some (graphOf emptiedState)"
  by (simp add: emptiedState_eq mutate_simp clickUndo_def undo_def historyEffect_def historyEffectFrom_def
      initialState_def at_index_def graphOf_def
      historyUpdater_def indexUpdater_def slice0_def shift_def
      HISTORY_LIMIT_def nodeA_def nodeB_def nodeC_def Let_def)

subsection \<open>Recording the same graph twice\<close>

lemma laidOutState_eq:
  "laidOutState = (initialState [] [])\<lparr> nodes := laidOutNodes,
      history := [(laidOutNodes, [])], historyIndex := 0 \<rparr>"
  by (simp add: laidOutState_def mutate_simp initialState_def at_index_def historyUpdater_def
      indexUpdater_def slice0_def shift_def HISTORY_LIMIT_def laidOutNodes_def Let_def)

lemma upt1: "[0..<1] = [0]"
  by simp

lemma layout_laidOutNodes: "layout laidOutNodes [] = laidOutNodes"
  by (simp add: layout_def latentsOf_def observedOf_def exogenousOf_def endogenousOf_def
      isExogenous_def endoStartY_def layoutLatent_def connectedObs_def firstOccurrences_def
      keepFirst_def sameId_def mappedObserved_def attachedLinks_def otherEnd_def hasObserved_def
      setXY_def Let_def laidOutNodes_def nodeA_def layout_consts)

text \<open>
  Claim C5 fails on the code. The history effect compares the graph with the entry at the
  current index and skips an identical one, but \<open>autoLayout\<close> calls \<open>saveToHistory\<close>
  itself, without that comparison: on a graph that is laid out already the layout changes
  nothing and the history still gets a second, identical entry.
\<close>

theorem auto_layout_records_identical_state:
  "at_index (history laidOutState) (historyIndex laidOutState) = Some (graphOf laidOutState)
   \<and> graphOf (autoLayout laidOutState) = graphOf laidOutState
   \<and> history laidOutState = [(laidOutNodes, [])]
   \<and> history (historyEffect (autoLayout laidOutState)) = [(laidOutNodes, []), (laidOutNodes, [])]
   \<and> historyIndex (historyEffect (autoLayout laidOutState)) = 1"
  by (simp add: laidOutState_eq autoLayout_def layout_laidOutNodes saveToHistory_def
      saveToHistoryFrom_def historyEffect_def historyEffectFrom_def initialState_def at_index_def
      graphOf_def historyUpdater_def indexUpdater_def slice0_def shift_def HISTORY_LIMIT_def
      latentsOf_def Let_def)
    (simp add: laidOutNodes_def nodeA_def)

text \<open>The history effect alone does skip a graph that is recorded at the current index.\<close>

lemma effect_skips_recorded_state:
  assumes "at_index (history st) (historyIndex st) = Some (nodes st, links st)"
  shows "history (historyEffect st) = history st \<and> historyIndex (historyEffect st) = historyIndex st"
  using assms by (simp add: historyEffect_def historyEffectFrom_def Let_def)

subsection \<open>The index and the bounds of the stack\<close>

lemma mountedState_eq:
  "mountedState = (initialState [nodeA] [])\<lparr> history := [([nodeA], [])], historyIndex := 1 \<rparr>"
  by (simp add: mountedState_def mountEffects_def seedEffectFrom_def historyEffectFrom_def
      saveToHistoryFrom_def initialState_def at_index_def historyUpdater_def
      indexUpdater_def slice0_def shift_def HISTORY_LIMIT_def Let_def)

text \<open>
  Claim C10 fails on the code. Mounted on a graph that is not empty, the seeding effect and
  the change effect of the first commit both call \<open>saveToHistory\<close> with the closure of the
  first render: the second update of the stack truncates it again and leaves one entry,
  while the index is incremented twice. The index is \<open>1\<close> on a stack of length \<open>1\<close>, and
  the effect of the next render records the same graph once more.
\<close>

theorem mount_index_out_of_bounds:
  "history mountedState = [([nodeA], [])]
   \<and> historyIndex mountedState = 1
   \<and> \<not> indexInBounds mountedState
   \<and> history (historyEffect mountedState) = [([nodeA], []), ([nodeA], [])]
   \<and> historyIndex (historyEffect mountedState) = 2"
  by (simp add: mountedState_eq indexInBounds_def historyEffect_def historyEffectFrom_def
      saveToHistoryFrom_def initialState_def at_index_def historyUpdater_def
      indexUpdater_def slice0_def shift_def HISTORY_LIMIT_def Let_def)

text \<open>
  The renders that follow keep recording the same graph until the stack is full: twenty
  identical entries with the index on the last one, where the effect comes to rest.
\<close>

lemma mount_settles:
  "history ((historyEffect ^^ 19) mountedState) = replicate 20 ([nodeA], [])
   \<and> historyIndex ((historyEffect ^^ 19) mountedState) = 19
   \<and> historyEffect ((historyEffect ^^ 19) mountedState) = (historyEffect ^^ 19) mountedState"
  by (simp add: mountedState_eq eval_nat_numeral funpow_swap1 initialState_def
      historyEffect_def historyEffectFrom_def saveToHistoryFrom_def at_index_def
      historyUpdater_def indexUpdater_def slice0_def shift_def HISTORY_LIMIT_def Let_def)

text \<open>
  Every call made with the closure of the current render keeps the index within the
  stack: edits, undo, redo, loading, a new model and the layout. Undo and redo then never
  read outside the stack.
\<close>

lemma consistent_saveToHistory:
  assumes "historyConsistent st"
  shows "indexInBounds (saveToHistoryFrom (historyIndex st) ns ls st)"
proof -
  let ?i = "historyIndex st"
  let ?h = "history st"
  from assms have b: "- 1 \<le> ?i" "?i \<le> int (length ?h) - 1"
    by (auto simp: historyConsistent_def indexInBounds_def)
  then have sl: "length (slice0 ?h (?i + 1)) = nat (?i + 1)"
    by (auto simp: slice0_def)
  show ?thesis
    using b
    by (auto simp: indexInBounds_def saveToHistoryFrom_def historyUpdater_def indexUpdater_def
        shift_def Let_def sl HISTORY_LIMIT_def)
qed

lemma consistent_historyEffect:
  assumes "historyConsistent st"
  shows "historyConsistent (historyEffect st)"
proof -
  have "historyEffect st = st\<lparr> isUndoRedoAction := False \<rparr> \<or>
        historyEffect st = (saveToHistoryFrom (historyIndex st) (nodes st) (links st) st)\<lparr> isUndoRedoAction := False \<rparr>"
    by (simp add: historyEffect_def historyEffectFrom_def Let_def)
  then show ?thesis
  proof
    assume "historyEffect st = st\<lparr> isUndoRedoAction := False \<rparr>"
    with assms show ?thesis by (simp add: historyConsistent_def indexInBounds_def)
  next
    assume e: "historyEffect st = (saveToHistoryFrom (historyIndex st) (nodes st) (links st) st)\<lparr> isUndoRedoAction := False \<rparr>"
    from consistent_saveToHistory [OF assms, of "nodes st" "links st"]
    show ?thesis by (simp add: e historyConsistent_def indexInBounds_def)
  qed
qed

lemma consistent_setGraph: "historyConsistent (setGraph ns ls st) = historyConsistent st"
  by (simp add: historyConsistent_def indexInBounds_def setGraph_def)

lemma consistent_mutate: "historyConsistent st \<Longrightarrow> historyConsistent (mutate ns ls st)"
  by (simp add: mutate_def consistent_historyEffect consistent_setGraph)

lemma consistent_undo:
  assumes "historyConsistent st"
  shows "\<exists>u. undo st = Some u \<and> historyConsistent u"
  using assms
  by (auto simp: undo_def at_index_def historyConsistent_def indexInBounds_def)

lemma consistent_redo:
  assumes "historyConsistent st"
  shows "\<exists>u. redo st = Some u \<and> historyConsistent u"
  using assms
  by (auto simp: redo_def at_index_def historyConsistent_def indexInBounds_def)

lemma consistent_clickUndo:
  assumes "historyConsistent st"
  shows "\<exists>u. clickUndo st = Some u \<and> historyConsistent u"
  using consistent_undo [OF assms] assms
  by (auto simp: clickUndo_def consistent_historyEffect)

lemma consistent_clickRedo:
  assumes "historyConsistent st"
  shows "\<exists>u. clickRedo st = Some u \<and> historyConsistent u"
  using consistent_redo [OF assms] assms
  by (auto simp: clickRedo_def consistent_historyEffect)

lemma consistent_load_new:
  "historyConsistent st \<Longrightarrow> historyConsistent (historyEffect (loadModel c model st)) \<and>
     historyConsistent (historyEffect (createNewModel c st))"
  by (intro conjI consistent_historyEffect)
    (simp_all add: loadModel_def createNewModel_def historyConsistent_def indexInBounds_def Let_def)

lemma consistent_autoLayout:
  assumes "historyConsistent st"
  shows "historyConsistent (historyEffect (autoLayout st))"
proof (rule consistent_historyEffect)
  have c: "historyConsistent (st\<lparr> nodes := ns \<rparr>)" for ns
    using assms by (simp add: historyConsistent_def indexInBounds_def)
  show "historyConsistent (autoLayout st)"
    using assms consistent_saveToHistory [OF c, of "layout (nodes st) (links st)" "layout (nodes st) (links st)" "links st"]
    by (simp add: autoLayout_def saveToHistory_def Let_def historyConsistent_def)
qed

lemma consistent_initial: "historyConsistent (initialState ns ls)"
  by (simp add: historyConsistent_def initialState_def)

subsection \<open>Idempotence and frame of the layout\<close>

lemma latentsOf_layout: "latentsOf (layout ns ls) = latentsOf ns"
  by (rule latentsOf_cong) (rule skel_layout)

lemma observedOf_layout: "observedOf (layout ns ls) = observedOf ns"
  by (rule observedOf_cong) (rule skel_layout)

text \<open>
  Claim C7. The layout is idempotent on every graph, in particular on the graphs of the
  claim, whose latents are all exogenous and whose observed nodes are all attached to a
  latent: laying out the result again returns the same node array, and clicking the
  layout button twice leaves the nodes of the first click.
\<close>

theorem auto_layout_idempotent:
  "layout (layout ns ls) ls = layout ns ls
   \<and> nodes (autoLayout (autoLayout st)) = nodes (autoLayout st)
   \<and> nodes (historyEffect (autoLayout (historyEffect (autoLayout st)))) = nodes (autoLayout st)
   \<and> (measurementModel ns ls \<longrightarrow> layout (layout ns ls) ls = layout ns ls)"
proof -
  have a: "nodes (autoLayout (autoLayout st)) = nodes (autoLayout st)"
    by (simp add: autoLayout_def saveToHistory_def saveToHistoryFrom_def Let_def
        latentsOf_layout observedOf_layout layout_idempotent)
  have n: "nodes (historyEffect s) = nodes s" for s
    by (simp add: historyEffect_def historyEffectFrom_def saveToHistoryFrom_def Let_def)
  have l: "links (historyEffect s) = links s" for s
    by (simp add: historyEffect_def historyEffectFrom_def saveToHistoryFrom_def Let_def)
  have b: "nodes (autoLayout (historyEffect s)) = nodes (autoLayout s)" for s
    by (simp add: autoLayout_def saveToHistory_def saveToHistoryFrom_def Let_def n l)
  show ?thesis
    using a by (simp add: layout_idempotent n b)
qed

text \<open>One latent with two indicators, one link in each direction.\<close>

theorem auto_layout_idempotent_witness:
  "measurementModel measurementNodes measurementLinks
   \<and> layout measurementNodes measurementLinks
       = [nodeA\<lparr> node_x := 100, node_y := 100 \<rparr>,
          \<lparr> node_id = ''c'', label = ''C'', node_type = Observed, node_x = 50, node_y = 220 \<rparr>,
          \<lparr> node_id = ''d'', label = ''D'', node_type = Observed, node_x = 150, node_y = 220 \<rparr>]
   \<and> layout (layout measurementNodes measurementLinks) measurementLinks
       = layout measurementNodes measurementLinks"
  using auto_layout_idempotent [of measurementNodes measurementLinks "initialState [] []"]
  by (simp add: measurementModel_def attachedToLatent_def measurementNodes_def measurementLinks_def
      layout_def latentsOf_def observedOf_def exogenousOf_def endogenousOf_def
      isExogenous_def endoStartY_def layoutLatent_def connectedObs_def firstOccurrences_def
      keepFirst_def sameId_def mappedObserved_def attachedLinks_def otherEnd_def hasObserved_def
      setXY_def upt3 Let_def nodeA_def layout_consts)

lemma unattached_not_written:
  assumes "node_type (ns ! j) = Observed" "\<not> attachedToLatent ns ls j"
  shows "j \<notin> written ns ls"
proof
  assume "j \<in> written ns ls"
  then consider "j \<in> set (latentsOf ns)"
    | L where "L \<in> set (latentsOf ns)"
        "j \<in> set (connectedObs ns (observedOf ns) ls (node_id (ns ! L)))"
    unfolding written_def by blast
  then show False
  proof cases
    case 1
    with assms(1) show False by (simp add: latentsOf_def)
  next
    case 2
    from connectedObs_elem [OF 2(2)] obtain l where l: "l \<in> set ls"
      "(source l = node_id (ns ! L) \<and> target l = node_id (ns ! j)) \<or>
       (target l = node_id (ns ! L) \<and> source l = node_id (ns ! j))"
      by blast
    with 2(1) have "attachedToLatent ns ls j"
      unfolding attachedToLatent_def list_ex_iff by blast
    with assms(2) show False by simp
  qed
qed

lemma length_layout: "length (layout ns ls) = length ns"
  using skel_layout [of ns ls] by (rule skel_length)

text \<open>
  Claim C9. An observed node that no link joins to a latent node comes out of the layout
  as it went in, position included; the array keeps its length, and every node that the
  layout changes is a latent or an observed node attached to a latent.
\<close>

theorem layout_keeps_unattached_observed:
  assumes "j < length ns" and "node_type (ns ! j) = Observed" and "\<not> attachedToLatent ns ls j"
  shows "layout ns ls ! j = ns ! j
     \<and> node_x (layout ns ls ! j) = node_x (ns ! j) \<and> node_y (layout ns ls ! j) = node_y (ns ! j)
     \<and> length (layout ns ls) = length ns
     \<and> (\<forall>k. layout ns ls ! k \<noteq> ns ! k \<longrightarrow> k \<in> written ns ls)"
  using layout_frame [OF unattached_not_written [OF assms(2,3)]] layout_frame [of _ ns ls]
  by (auto simp: length_layout)

lemma upt4: "[0..<4] = [0, 1, 2, 3]"
  by (simp add: upt_rec)

text \<open>The example graph with a fourth, isolated observed node.\<close>

theorem layout_keeps_unattached_observed_witness:
  "node_type ((scenarioNodes @ [isolatedNode]) ! 3) = Observed
   \<and> \<not> attachedToLatent (scenarioNodes @ [isolatedNode]) scenarioLinks 3
   \<and> layout (scenarioNodes @ [isolatedNode]) scenarioLinks ! 3 = isolatedNode
   \<and> node_x (layout (scenarioNodes @ [isolatedNode]) scenarioLinks ! 3) = 7
   \<and> node_y (layout (scenarioNodes @ [isolatedNode]) scenarioLinks ! 3) = 9"
proof -
  have t: "node_type ((scenarioNodes @ [isolatedNode]) ! 3) = Observed"
    by (simp add: scenarioNodes_def isolatedNode_def)
  have n: "\<not> attachedToLatent (scenarioNodes @ [isolatedNode]) scenarioLinks 3"
    by (simp add: attachedToLatent_def scenarioNodes_def scenarioLinks_def isolatedNode_def
        latentsOf_def upt4 nodeA_def nodeB_def nodeC_def)
  have l: "3 < length (scenarioNodes @ [isolatedNode])"
    by (simp add: scenarioNodes_def)
  from layout_keeps_unattached_observed [OF l t n] t n
  show ?thesis by (simp add: scenarioNodes_def isolatedNode_def)
qed

end
